theory Spec2Isabelle
  imports Main
begin

section \<open>Promotional video timelines (promo-video/src)\<close>

text \<open>
  The Remotion components \<^verbatim>\<open>FacebookAd\<close> (FacebookAd.jsx) and \<^verbatim>\<open>Video\<close> (Video.jsx) each
  render four \<^verbatim>\<open><Sequence from={..} durationInFrames={..}>\<close> elements, and \<^verbatim>\<open>RemotionRoot\<close>
  (Root.jsx) registers three compositions. A \<^verbatim>\<open>Sequence\<close> is embedded as a record of its two
  props and the scene it wraps; a component as the list of its sequences, in source order; a
  \<^verbatim>\<open>Composition\<close> as a record of its props. The prop \<^verbatim>\<open>from\<close> is named \<open>seq_from\<close>
  and the props of a composition carry the prefix \<open>comp_\<close>, since \<open>from\<close> is a keyword and
  \<open>durationInFrames\<close> occurs in both elements.
\<close>

datatype scene =
    LeadGeneration | AICalling | PerformanceDashboard | TheSystem
  | ChaoticIntro | DramaticProblem | SolutionWithPizzazz | RidiculousCTA

record sequence =
  seq_from :: nat
  durationInFrames :: nat
  child :: scene

record composition =
  comp_id :: string
  component :: "sequence list"
  comp_durationInFrames :: nat
  fps :: nat
  width :: nat
  height :: nat

definition FacebookAd :: "sequence list" where
  "FacebookAd =
     [\<lparr>seq_from = 0, durationInFrames = 150, child = LeadGeneration\<rparr>,
      \<lparr>seq_from = 150, durationInFrames = 150, child = AICalling\<rparr>,
      \<lparr>seq_from = 300, durationInFrames = 240, child = PerformanceDashboard\<rparr>,
      \<lparr>seq_from = 540, durationInFrames = 210, child = TheSystem\<rparr>]"

definition Video :: "sequence list" where
  "Video =
     [\<lparr>seq_from = 0, durationInFrames = 90, child = ChaoticIntro\<rparr>,
      \<lparr>seq_from = 90, durationInFrames = 150, child = DramaticProblem\<rparr>,
      \<lparr>seq_from = 240, durationInFrames = 360, child = SolutionWithPizzazz\<rparr>,
      \<lparr>seq_from = 600, durationInFrames = 150, child = RidiculousCTA\<rparr>]"

definition RemotionRoot :: "composition list" where
  "RemotionRoot =
     [\<lparr>comp_id = ''SunbeamPromo'', component = Video, comp_durationInFrames = 750,
       fps = 30, width = 1920, height = 1080\<rparr>,
      \<lparr>comp_id = ''FacebookAd-16x9'', component = FacebookAd, comp_durationInFrames = 750,
       fps = 30, width = 1920, height = 1080\<rparr>,
      \<lparr>comp_id = ''FacebookAd-Square'', component = FacebookAd, comp_durationInFrames = 750,
       fps = 30, width = 1080, height = 1080\<rparr>]"

text \<open>
  A sequence shows its child on the frames \<open>from \<le> f < from + durationInFrames\<close> of the
  enclosing timeline; \<open>seq_end\<close> is the first frame after it.
\<close>

definition seq_end :: "sequence \<Rightarrow> nat" where
  "seq_end s = seq_from s + durationInFrames s"

definition mounted :: "sequence \<Rightarrow> nat \<Rightarrow> bool" where
  "mounted s f \<longleftrightarrow> seq_from s \<le> f \<and> f < seq_end s"

definition scenes_at :: "sequence list \<Rightarrow> nat \<Rightarrow> scene list" where
  "scenes_at ss f = map child (filter (\<lambda>s. mounted s f) ss)"

section \<open>The website crawler of the lead engine\<close>

text \<open>
  The lead engine's crawler (\<^verbatim>\<open>lead_engine/crawler.py\<close> in the repository's layout) is not
  among the sources; the definitions of this section follow section 4.4 of the specification,
  \<^verbatim>\<open>crawl(domain, maxPages, timeoutPerRequest)\<close>. The network and the HTML handling are
  parameters, collected in the record \<open>web\<close>.
\<close>

text \<open>
  Modelled from the spec: the outcome of one page fetch, which the crawler's HTTP code would
  produce. "Each fetch has an independent timeout; a timed-out or erroring page is skipped":
  a fetch yields the document's text, times out, or fails.
\<close>

datatype fetch_result = Document string | TimedOut | FetchError

text \<open>
  Modelled from the spec: the crawler's environment, absent with the crawler. \<open>fetch t u\<close>
  requests the URL \<open>u\<close> with the per-request timeout \<open>t\<close>; \<open>links_of\<close> gives the absolute
  URLs of the links of a document, in document order; \<open>domain_of\<close> is the normalized domain
  of a URL ("same-domain links only"); \<open>root_url\<close> is the site root of a domain ("starts at
  the site root").
\<close>

record web =
  fetch :: "nat \<Rightarrow> string \<Rightarrow> fetch_result"
  links_of :: "string \<Rightarrow> string list"
  domain_of :: "string \<Rightarrow> string"
  root_url :: "string \<Rightarrow> string"

text \<open>
  Modelled from the spec: one entry of the crawl's log of attempted fetches ("pages
  visited" of the CrawlResult). \<open>depth\<close> is the number of links followed from the root to
  reach the page; it is bookkeeping for stating the breadth-first order and decides nothing.
\<close>

record attempt =
  url :: string
  depth :: nat
  result :: fetch_result

text \<open>
  Modelled from the spec: the links a fetched page contributes, "same-domain links only (no
  cross-domain hops)". A page that timed out or failed contributes none.
\<close>

definition same_domain_links :: "web \<Rightarrow> string \<Rightarrow> fetch_result \<Rightarrow> string list" where
  "same_domain_links W domain r =
     (case r of
        Document body \<Rightarrow> filter (\<lambda>l. domain_of W l = domain) (links_of W body)
      | TimedOut \<Rightarrow> []
      | FetchError \<Rightarrow> [])"

text \<open>
  Modelled from the spec: the "unvisited" links among those of a page: the ones not seen
  before, each once, in the order of the page.
\<close>

fun unvisited :: "string list \<Rightarrow> string list \<Rightarrow> string list" where
  "unvisited seen [] = []"
| "unvisited seen (l # ls) =
     (if l \<in> set seen then unvisited seen ls else l # unvisited (seen @ [l]) ls)"

text \<open>
  Modelled from the spec: the crawl loop. "Breadth-first, up to maxPages fetched documents or
  until no unvisited same-domain links remain": the frontier is a first-in first-out queue;
  the loop ends when the page budget (the first numeric argument after the timeout) is used
  up or the queue is empty. "The page budget is purely a count of attempted fetches": every
  fetch, whatever its outcome, takes one unit of the budget and is never retried.
\<close>

fun crawl_loop ::
  "web \<Rightarrow> string \<Rightarrow> nat \<Rightarrow> nat \<Rightarrow> (string \<times> nat) list \<Rightarrow> string list \<Rightarrow> attempt list" where
  "crawl_loop W domain t 0 queue seen = []"
| "crawl_loop W domain t (Suc n) [] seen = []"
| "crawl_loop W domain t (Suc n) ((u, d) # queue) seen =
     (let r = fetch W t u;
          new = unvisited seen (same_domain_links W domain r)
      in \<lparr>url = u, depth = d, result = r\<rparr> #
         crawl_loop W domain t n (queue @ map (\<lambda>l. (l, Suc d)) new) (seen @ new))"

text \<open>
  Modelled from the spec: \<^verbatim>\<open>crawl(domain, maxPages, timeoutPerRequest)\<close>, as far as its
  fetches go: the log of attempted fetches, in the order they were made. The extracted
  emails and the terminal status of the CrawlResult are computed from this log by the
  Extractor and by the status rule of section 4.4; they are not part of this development.
\<close>

definition crawl :: "web \<Rightarrow> string \<Rightarrow> nat \<Rightarrow> nat \<Rightarrow> attempt list" where
  "crawl W domain maxPages timeoutPerRequest =
     crawl_loop W domain timeoutPerRequest maxPages [(root_url W domain, 0)] [root_url W domain]"

definition is_document :: "fetch_result \<Rightarrow> bool" where
  "is_document r = (case r of Document body \<Rightarrow> True | TimedOut \<Rightarrow> False | FetchError \<Rightarrow> False)"

text \<open>
  \<open>followed W domain p a\<close>: the attempt \<open>a\<close> follows a link of the page fetched by the
  attempt \<open>p\<close>: \<open>p\<close> got a document, that document links to the URL of \<open>a\<close>, the URL is on
  the crawled domain, and \<open>a\<close> is one link deeper than \<open>p\<close>.
\<close>

definition followed :: "web \<Rightarrow> string \<Rightarrow> attempt \<Rightarrow> attempt \<Rightarrow> bool" where
  "followed W domain p a =
     (case result p of
        Document body \<Rightarrow>
          url a \<in> set (links_of W body) \<and> domain_of W (url a) = domain \<and>
          depth a = Suc (depth p)
      | TimedOut \<Rightarrow> False
      | FetchError \<Rightarrow> False)"

text \<open>
  A small site for evaluating the crawl: the home page links to \<^verbatim>\<open>/a\<close> (twice), to another
  domain and to \<^verbatim>\<open>/b\<close>; \<^verbatim>\<open>/a\<close> times out; \<^verbatim>\<open>/b\<close> links back to the root and to seven more
  pages, of which \<^verbatim>\<open>/c\<close> fails.
\<close>

definition example_web :: web where
  "example_web =
     \<lparr>fetch = (\<lambda>t u.
        if u = ''https://acme.test/'' then Document ''home''
        else if u = ''https://acme.test/a'' then TimedOut
        else if u = ''https://acme.test/b'' then Document ''team''
        else if u = ''https://acme.test/c'' then FetchError
        else Document ''leaf''),
      links_of = (\<lambda>body.
        if body = ''home'' then
          [''https://acme.test/a'', ''https://other.test/'', ''https://acme.test/b'',
           ''https://acme.test/a'']
        else if body = ''team'' then
          [''https://acme.test/'', ''https://acme.test/c'', ''https://acme.test/d'',
           ''https://acme.test/e'', ''https://acme.test/f'', ''https://acme.test/g'',
           ''https://acme.test/h'']
        else []),
      domain_of = (\<lambda>u. takeWhile (\<lambda>c. c \<noteq> CHR ''/'') (drop 8 u)),
      root_url = (\<lambda>d. ''https://'' @ d @ ''/'')\<rparr>"

section \<open>The FacebookAd timeline\<close>

lemma FacebookAd_props:
  "map (\<lambda>s. (seq_from s, durationInFrames s)) FacebookAd =
     [(0, 150), (150, 150), (300, 240), (540, 210)]"
  by (simp add: FacebookAd_def)

lemma FacebookAd_one_scene:
  assumes "f < 750"
  shows "length (scenes_at FacebookAd f) = 1"
proof -
  consider "f < 150" | "150 \<le> f" "f < 300" | "300 \<le> f" "f < 540" | "540 \<le> f" "f < 750"
    using assms by linarith
  then show ?thesis
    by cases (simp_all add: scenes_at_def FacebookAd_def mounted_def seq_end_def)
qed

lemma FacebookAd_no_scene_after:
  "750 \<le> f \<Longrightarrow> scenes_at FacebookAd f = []"
  by (simp add: scenes_at_def FacebookAd_def mounted_def seq_end_def)

lemma FacebookAd_compositions:
  "map (\<lambda>c. (comp_id c, comp_durationInFrames c))
       (filter (\<lambda>c. component c = FacebookAd) RemotionRoot) =
     [(''FacebookAd-16x9'', 750), (''FacebookAd-Square'', 750)]"
  by (simp add: RemotionRoot_def FacebookAd_def Video_def)

text \<open>
  Claim C10. The four sequences of \<^verbatim>\<open>FacebookAd\<close> start at frames 0, 150, 300 and 540 and
  last 150, 150, 240 and 210 frames; every frame below 750 shows exactly one scene (no gap,
  no overlap); the last scene ends exactly at frame 750, which is the
  \<^verbatim>\<open>durationInFrames\<close> of the two compositions whose component is \<^verbatim>\<open>FacebookAd\<close>,
  \<^verbatim>\<open>FacebookAd-16x9\<close> and \<^verbatim>\<open>FacebookAd-Square\<close>.
\<close>

theorem FacebookAd_timeline:
  "map (\<lambda>s. (seq_from s, durationInFrames s)) FacebookAd =
     [(0, 150), (150, 150), (300, 240), (540, 210)] \<and>
   (f < 750 \<longrightarrow> length (scenes_at FacebookAd f) = 1) \<and>
   (750 \<le> f \<longrightarrow> scenes_at FacebookAd f = []) \<and>
   seq_end (last FacebookAd) = 750 \<and>
   map (\<lambda>c. (comp_id c, comp_durationInFrames c))
     (filter (\<lambda>c. component c = FacebookAd) RemotionRoot) =
     [(''FacebookAd-16x9'', 750), (''FacebookAd-Square'', 750)]"
proof -
  have "seq_end (last FacebookAd) = 750"
    by (simp add: FacebookAd_def seq_end_def)
  then show ?thesis
    using FacebookAd_props FacebookAd_one_scene FacebookAd_no_scene_after
      FacebookAd_compositions
    by blast
qed

theorem FacebookAd_timeline_witness:
  "(300::nat) < 750 \<and> scenes_at FacebookAd 300 = [PerformanceDashboard] \<and>
   length (scenes_at FacebookAd 300) = 1 \<and>
   (750::nat) \<le> 750 \<and> scenes_at FacebookAd 750 = []"
  using FacebookAd_timeline [of 300] FacebookAd_timeline [of 750]
  by (simp add: scenes_at_def FacebookAd_def mounted_def seq_end_def)

section \<open>The crawl's page budget and order\<close>

lemma crawl_loop_length: "length (crawl_loop W domain t n q seen) \<le> n"
  by (induction W domain t n q seen rule: crawl_loop.induct) (simp_all add: Let_def)

lemma unvisited_subset: "set (unvisited seen ls) \<subseteq> set ls"
  by (induction seen ls rule: unvisited.induct) auto

lemma unvisited_fresh: "set (unvisited seen ls) \<inter> set seen = {}"
  by (induction seen ls rule: unvisited.induct) auto

lemma unvisited_distinct: "distinct (unvisited seen ls)"
proof (induction seen ls rule: unvisited.induct)
  case (1 seen)
  then show ?case by simp
next
  case (2 seen l ls)
  have "l \<notin> set (unvisited (seen @ [l]) ls)"
    using unvisited_fresh [of "seen @ [l]" ls] by auto
  with 2 show ?case by simp
qed

lemma sorted_map_const: "sorted (map (\<lambda>x. c::nat) xs)"
  by (induction xs) simp_all

lemma crawl_loop_depth:
  assumes "sorted (map snd q)" and "\<forall>e \<in> set q. d0 \<le> snd e \<and> snd e \<le> Suc d0"
  shows "sorted (map depth (crawl_loop W domain t n q seen)) \<and>
         (\<forall>a \<in> set (crawl_loop W domain t n q seen). d0 \<le> depth a)"
  using assms
proof (induction W domain t n q seen arbitrary: d0 rule: crawl_loop.induct)
  case (1 W domain t queue seen)
  then show ?case by simp
next
  case (2 W domain t n seen)
  then show ?case by simp
next
  case (3 W domain t n u d queue seen)
  let ?r = "fetch W t u"
  let ?new = "unvisited seen (same_domain_links W domain ?r)"
  let ?q' = "queue @ map (\<lambda>l. (l, Suc d)) ?new"
  have d: "d0 \<le> d" "d \<le> Suc d0" using "3.prems"(2) by auto
  have queue: "\<forall>e \<in> set queue. d \<le> snd e \<and> snd e \<le> Suc d0"
    using "3.prems" by auto
  have s: "sorted (map snd ?q')"
    using "3.prems"(1) queue d by (auto simp: sorted_append comp_def sorted_map_const)
  have b: "\<forall>e \<in> set ?q'. d \<le> snd e \<and> snd e \<le> Suc d"
    using queue d by auto
  have IH: "sorted (map depth (crawl_loop W domain t n ?q' (seen @ ?new))) \<and>
            (\<forall>a \<in> set (crawl_loop W domain t n ?q' (seen @ ?new)). d \<le> depth a)"
    using "3.IH" [OF refl refl s b]
    by simp
  show ?case
    using IH d by (auto simp: Let_def)
qed

lemma crawl_loop_followed:
  "crawl_loop W domain t n q seen = pre @ a # post \<Longrightarrow>
   (url a, depth a) \<in> set q \<or> (\<exists>p \<in> set pre. followed W domain p a)"
proof (induction W domain t n q seen arbitrary: pre rule: crawl_loop.induct)
  case (1 W domain t queue seen)
  then show ?case by simp
next
  case (2 W domain t n seen)
  then show ?case by simp
next
  case (3 W domain t n u d queue seen)
  let ?r = "fetch W t u"
  let ?new = "unvisited seen (same_domain_links W domain ?r)"
  let ?q' = "queue @ map (\<lambda>l. (l, Suc d)) ?new"
  let ?x = "\<lparr>url = u, depth = d, result = ?r\<rparr>"
  have out: "?x # crawl_loop W domain t n ?q' (seen @ ?new) = pre @ a # post"
    using "3.prems" by (simp add: Let_def)
  show ?case
  proof (cases pre)
    case Nil
    with out have "a = ?x" by simp
    then show ?thesis by simp
  next
    case (Cons y pre')
    with out have y: "y = ?x" and rest: "crawl_loop W domain t n ?q' (seen @ ?new) = pre' @ a # post"
      by simp_all
    from "3.IH" [OF refl refl rest]
    have "(url a, depth a) \<in> set ?q' \<or> (\<exists>p \<in> set pre'. followed W domain p a)"
      by simp
    then consider "(url a, depth a) \<in> set queue"
      | "url a \<in> set ?new" "depth a = Suc d"
      | "\<exists>p \<in> set pre'. followed W domain p a"
      by auto
    then show ?thesis
    proof cases
      case 1
      then show ?thesis by simp
    next
      case 2
      have "url a \<in> set (same_domain_links W domain ?r)"
        using 2(1) unvisited_subset by auto
      then have "followed W domain ?x a"
        using 2(2) by (auto simp: followed_def same_domain_links_def split: fetch_result.splits)
      then show ?thesis using Cons y by auto
    next
      case 3
      then show ?thesis using Cons by auto
    qed
  qed
qed

lemma crawl_loop_distinct:
  "distinct (map fst q) \<Longrightarrow> set (map fst q) \<subseteq> set seen \<Longrightarrow>
   distinct (map url (crawl_loop W domain t n q seen)) \<and>
   (\<forall>a \<in> set (crawl_loop W domain t n q seen). url a \<in> set (map fst q) \<or> url a \<notin> set seen)"
proof (induction W domain t n q seen rule: crawl_loop.induct)
  case (1 W domain t queue seen)
  then show ?case by simp
next
  case (2 W domain t n seen)
  then show ?case by simp
next
  case (3 W domain t n u d queue seen)
  let ?r = "fetch W t u"
  let ?new = "unvisited seen (same_domain_links W domain ?r)"
  let ?q' = "queue @ map (\<lambda>l. (l, Suc d)) ?new"
  let ?out = "crawl_loop W domain t n ?q' (seen @ ?new)"
  have fresh: "set ?new \<inter> set seen = {}" and dn: "distinct ?new"
    by (simp_all add: unvisited_fresh unvisited_distinct)
  have fq': "map fst ?q' = map fst queue @ ?new"
    by (simp add: comp_def)
  have u: "u \<in> set seen" "u \<notin> set (map fst queue)" "distinct (map fst queue)"
    "set (map fst queue) \<subseteq> set seen"
    using "3.prems" by auto
  have d': "distinct (map fst ?q')"
    unfolding fq' using u fresh dn by auto
  have s': "set (map fst ?q') \<subseteq> set (seen @ ?new)"
    unfolding fq' using u by auto
  from "3.IH" [OF refl refl d' s']
  have IH1: "distinct (map url ?out)"
    and IH2: "\<forall>a \<in> set ?out. url a \<in> set (map fst ?q') \<or> url a \<notin> set (seen @ ?new)"
    by blast+
  have sub: "\<forall>a \<in> set ?out. url a \<in> set (map fst queue) \<or> url a \<notin> set seen"
    using IH2 fresh unfolding fq' by auto
  then have "u \<notin> url ` set ?out"
    using u by auto
  then show ?case
    using IH1 sub by (auto simp: Let_def)
qed


text \<open>
  Claim C6. For every domain and every page budget (the configured \<^verbatim>\<open>max-crawl-pages\<close>, 6 by
  default), whatever the site's pages link to: \<open>crawl\<close> attempts at most \<open>maxPages\<close> fetches;
  fetched documents and timed-out or failed fetches together stay within the budget, so a
  failed fetch uses up a unit of it; the attempts are in breadth-first order, that is, in
  order of non-decreasing link depth; no URL is fetched twice; and every attempt is either
  the site root, at depth 0, or follows a same-domain link of a document fetched earlier in
  the crawl, one level up.
\<close>

theorem crawl_page_budget:
  "length (crawl W domain maxPages t) \<le> maxPages \<and>
   length (filter (\<lambda>a. is_document (result a)) (crawl W domain maxPages t)) +
   length (filter (\<lambda>a. \<not> is_document (result a)) (crawl W domain maxPages t)) \<le> maxPages \<and>
   sorted (map depth (crawl W domain maxPages t)) \<and>
   distinct (map url (crawl W domain maxPages t)) \<and>
   (\<forall>pre a post. crawl W domain maxPages t = pre @ a # post \<longrightarrow>
      (url a = root_url W domain \<and> depth a = 0) \<or> (\<exists>p \<in> set pre. followed W domain p a))"
proof -
  let ?A = "crawl W domain maxPages t"
  have len: "length ?A \<le> maxPages"
    by (simp add: crawl_def crawl_loop_length)
  have "length (filter (\<lambda>a. is_document (result a)) ?A) +
        length (filter (\<lambda>a. \<not> is_document (result a)) ?A) = length ?A"
    by (rule sum_length_filter_compl)
  moreover have "sorted (map depth ?A)"
    using crawl_loop_depth [of "[(root_url W domain, 0)]" 0] by (simp add: crawl_def)
  moreover have "distinct (map url ?A)"
    using crawl_loop_distinct [of "[(root_url W domain, 0)]" "[root_url W domain]"]
    by (simp add: crawl_def)
  moreover have "\<forall>pre a post. ?A = pre @ a # post \<longrightarrow>
      (url a = root_url W domain \<and> depth a = 0) \<or> (\<exists>p \<in> set pre. followed W domain p a)"
    using crawl_loop_followed [of W domain t maxPages "[(root_url W domain, 0)]" "[root_url W domain]"]
    by (auto simp: crawl_def)
  ultimately show ?thesis using len by simp
qed

lemma example_crawl:
  "crawl example_web ''acme.test'' 6 10 =
     [\<lparr>url = ''https://acme.test/'', depth = 0, result = Document ''home''\<rparr>,
      \<lparr>url = ''https://acme.test/a'', depth = 1, result = TimedOut\<rparr>,
      \<lparr>url = ''https://acme.test/b'', depth = 1, result = Document ''team''\<rparr>,
      \<lparr>url = ''https://acme.test/c'', depth = 2, result = FetchError\<rparr>,
      \<lparr>url = ''https://acme.test/d'', depth = 2, result = Document ''leaf''\<rparr>,
      \<lparr>url = ''https://acme.test/e'', depth = 2, result = Document ''leaf''\<rparr>]"
  by (simp add: crawl_def example_web_def same_domain_links_def numeral_eq_Suc Let_def)

theorem crawl_page_budget_witness:
  "map url (crawl example_web ''acme.test'' 6 10) =
     [''https://acme.test/'', ''https://acme.test/a'', ''https://acme.test/b'',
      ''https://acme.test/c'', ''https://acme.test/d'', ''https://acme.test/e''] \<and>
   map depth (crawl example_web ''acme.test'' 6 10) = [0, 1, 1, 2, 2, 2] \<and>
   length (crawl example_web ''acme.test'' 6 10) \<le> 6 \<and>
   length (filter (\<lambda>a. is_document (result a)) (crawl example_web ''acme.test'' 6 10)) = 4 \<and>
   length (filter (\<lambda>a. \<not> is_document (result a)) (crawl example_web ''acme.test'' 6 10)) = 2 \<and>
   sorted (map depth (crawl example_web ''acme.test'' 6 10)) \<and>
   followed example_web ''acme.test''
     (crawl example_web ''acme.test'' 6 10 ! 2) (crawl example_web ''acme.test'' 6 10 ! 3)"
  using crawl_page_budget [of example_web "''acme.test''" 6 10]
  unfolding example_crawl
  by (simp add: is_document_def followed_def example_web_def)

end
